theory Spec2Isabelle
  imports Complex_Main "HOL-Library.Word" "HOL-Library.Sublist"
begin

section \<open>Agentic Speech Studio: the speech queue of \<open>src/app/page.tsx\<close>\<close>

text \<open>
  The page component keeps a list of speech requests in React state, hands them one at a
  time to the browser's speech engine (\<open>window.speechSynthesis\<close>) and follows the
  engine's per-utterance callbacks. The component's state and refs become one record, each
  handler a function from state to state, and the engine an explicit part of the state:
  the log of the calls made on it and the utterances it holds.
\<close>

subsection \<open>Strings\<close>

text \<open>
  A JavaScript string is a sequence of UTF-16 code units. \<open>js\<close> writes a literal.
\<close>

type_synonym jsstring = "16 word list"

definition js :: "string \<Rightarrow> jsstring" where
  "js s = map of_char s"

text \<open>
  \<open>String.prototype.trim\<close> strips the code points of WhiteSpace (TAB, VT, FF, ZWNBSP and
  the space separators) and of LineTerminator (LF, CR, LS, PS) from both ends. All of them
  are single code units.
\<close>

definition isWhiteSpace :: "16 word \<Rightarrow> bool" where
  "isWhiteSpace c =
     (c \<in> {0x9, 0xA, 0xB, 0xC, 0xD, 0x20, 0xA0, 0x1680, 0x2028, 0x2029, 0x202F, 0x205F,
            0x3000, 0xFEFF}
      \<or> (0x2000 \<le> c \<and> c \<le> 0x200A))"

definition trim :: "jsstring \<Rightarrow> jsstring" where
  "trim s = rev (dropWhile isWhiteSpace (rev (dropWhile isWhiteSpace s)))"

text \<open>
  \<open>lang.toLowerCase().startsWith("en")\<close>: the only code units that lower-case to
  \<open>e\<close> and \<open>n\<close> are the ASCII letters themselves.
\<close>

definition startsWithEn :: "jsstring \<Rightarrow> bool" where
  "startsWithEn lang =
     (case lang of
        a # b # _ \<Rightarrow> (a = 0x45 \<or> a = 0x65) \<and> (b = 0x4E \<or> b = 0x6E)
      | _ \<Rightarrow> False)"

subsection \<open>Data model\<close>

text \<open>
  \<open>VoiceOption\<close>: the engine's voice object is identified by its name and language, so
  the field \<open>voice\<close> is the record itself.
\<close>

record VoiceOption =
  vid :: jsstring
  vname :: jsstring
  vlang :: jsstring

datatype QueueItemStatus = Pending | Speaking | Completed | Error | Cancelled

text \<open>
  \<open>QueueItem\<close>. The field names of the source carry the prefix \<open>item_\<close> where the
  page state has a field of the same name. Numbers are JavaScript numbers; the page only
  stores them, so they are reals here (NaN and the infinities are left out).
\<close>

record QueueItem =
  item_id :: jsstring
  item_text :: jsstring
  voiceId :: jsstring
  item_rate :: real
  item_pitch :: real
  item_volume :: real
  status :: QueueItemStatus
  error :: "jsstring option"

text \<open>
  The \<open>SpeechSynthesisUtterance\<close> built by \<open>speak\<close>. Its three callbacks close over
  \<open>item.id\<close>, which is the field \<open>uitem\<close>.
\<close>

record Utterance =
  utext :: jsstring
  uvoice :: "VoiceOption option"
  urate :: real
  upitch :: real
  uvolume :: real
  uitem :: jsstring

subsection \<open>The speech engine\<close>

text \<open>
  The engine is the browser's, not the page's. What the page does to it is the log
  \<open>calls\<close>. What it may do to the page is decided by the utterances it holds:
  \<open>utts\<close> is its queue (\<open>speak\<close> appends, \<open>cancel\<close> empties it), \<open>started\<close> says
  whether the start event of the head utterance has been delivered, and \<open>stale\<close> holds
  the utterances that \<open>cancel\<close> removed and whose trailing end or error event may still
  arrive. The flags \<open>speaking\<close> and \<open>paused\<close> that the page reads from the engine are
  inputs of the handlers that read them.
\<close>

datatype EngineCall = Cancel | Speak Utterance | Pause | Resume

record Engine =
  calls :: "EngineCall list"
  utts :: "Utterance list"
  started :: bool
  stale :: "Utterance list"

definition engine_cancel :: "Engine \<Rightarrow> Engine" where
  "engine_cancel e =
     e\<lparr>calls := calls e @ [Cancel], utts := [], started := False, stale := stale e @ utts e\<rparr>"

definition engine_speak :: "Utterance \<Rightarrow> Engine \<Rightarrow> Engine" where
  "engine_speak u e = e\<lparr>calls := calls e @ [Speak u], utts := utts e @ [u]\<rparr>"

definition engine_pause :: "Engine \<Rightarrow> Engine" where
  "engine_pause e = e\<lparr>calls := calls e @ [Pause]\<rparr>"

definition engine_resume :: "Engine \<Rightarrow> Engine" where
  "engine_resume e = e\<lparr>calls := calls e @ [Resume]\<rparr>"

subsection \<open>The page state\<close>

text \<open>
  The \<open>useState\<close> cells and the two refs of \<open>Page\<close>. \<open>speechRef\<close> is true when
  \<open>speechRef.current\<close> holds the engine, false when it is null. The field \<open>text'\<close> is
  the state cell \<open>text\<close>.
\<close>

record State =
  text' :: jsstring
  voices :: "VoiceOption list"
  selectedVoice :: jsstring
  rate :: real
  pitch :: real
  volume :: real
  queue :: "QueueItem list"
  isPaused :: bool
  supportsSpeech :: bool
  speechRef :: bool
  currentUtteranceRef :: "Utterance option"
  engine :: Engine

definition defaultText :: jsstring where
  "defaultText = js ''Never lose your ideas again. Paste anything you want to hear, dial in the perfect voice, and generate speech instantly.''"

definition initial :: State where
  "initial =
     \<lparr>text' = defaultText, voices = [], selectedVoice = [], rate = 1, pitch = 1, volume = 1,
      queue = [], isPaused = False, supportsSpeech = True, speechRef = False,
      currentUtteranceRef = None,
      engine = \<lparr>calls = [], utts = [], started = False, stale = []\<rparr>\<rparr>"

subsection \<open>Voice catalog\<close>

text \<open>
  \<open>mapVoices\<close> takes what \<open>getVoices()\<close> returned, as pairs of name and language.
\<close>

definition mapVoices :: "(jsstring \<times> jsstring) list \<Rightarrow> State \<Rightarrow> State" where
  "mapVoices availableVoices s =
     (let mapped = map (\<lambda>(n, l). \<lparr>vid = n @ l, vname = n, vlang = l\<rparr>) availableVoices;
          s1 = s\<lparr>voices := mapped\<rparr>
      in if selectedVoice s = [] \<and> mapped \<noteq> []
         then (let preferred =
                     (case find (\<lambda>voice. startsWithEn (vlang voice)) mapped of
                        Some v \<Rightarrow> v
                      | None \<Rightarrow> hd mapped)
               in s1\<lparr>selectedVoice := vid preferred\<rparr>)
         else s1)"

text \<open>
  The first effect of the component; the flag says whether \<open>window.speechSynthesis\<close>
  exists.
\<close>

definition voicesEffect :: "bool \<Rightarrow> (jsstring \<times> jsstring) list \<Rightarrow> State \<Rightarrow> State" where
  "voicesEffect hasSynthesis availableVoices s =
     (if \<not> hasSynthesis then s\<lparr>supportsSpeech := False\<rparr>
      else mapVoices availableVoices (s\<lparr>speechRef := True\<rparr>))"

definition selectedVoiceInfo :: "State \<Rightarrow> VoiceOption option" where
  "selectedVoiceInfo s = find (\<lambda>voice. vid voice = selectedVoice s) (voices s)"

subsection \<open>Dispatch and the utterance callbacks\<close>

definition utteranceOf :: "State \<Rightarrow> QueueItem \<Rightarrow> Utterance" where
  "utteranceOf s item =
     \<lparr>utext = item_text item,
      uvoice = find (\<lambda>v. vid v = voiceId item) (voices s),
      urate = item_rate item, upitch = item_pitch item, uvolume = item_volume item,
      uitem = item_id item\<rparr>"

definition speak :: "QueueItem \<Rightarrow> State \<Rightarrow> State" where
  "speak item s =
     (if \<not> speechRef s \<or> \<not> supportsSpeech s then s
      else (let utterance = utteranceOf s item
            in s\<lparr>currentUtteranceRef := Some utterance,
                 engine := engine_speak utterance (engine_cancel (engine s))\<rparr>))"

definition onstart :: "jsstring \<Rightarrow> State \<Rightarrow> State" where
  "onstart itemId s =
     s\<lparr>queue := map (\<lambda>entry. if item_id entry = itemId then entry\<lparr>status := Speaking\<rparr>
                              else entry) (queue s)\<rparr>"

text \<open>
  The end callback works at two moments. When the engine calls it, it hands React the
  queue updater and the new paused flag and clears the ref; it does not read the engine.
  When React applies the update, which may be after the callback has returned, the
  updater reads \<open>speechRef.current?.speaking\<close>, which is falsy when the ref is null.
  \<open>engineSpeaking\<close> is the engine's flag \<open>speaking\<close> at that second moment.
\<close>

definition onendCallback :: "State \<Rightarrow> State" where
  "onendCallback s = s\<lparr>currentUtteranceRef := None\<rparr>"

definition onendUpdate :: "jsstring \<Rightarrow> bool \<Rightarrow> State \<Rightarrow> State" where
  "onendUpdate itemId engineSpeaking s =
     s\<lparr>queue := map (\<lambda>entry. if item_id entry = itemId
                              then entry\<lparr>status := (if speechRef s \<and> engineSpeaking
                                                      then Cancelled else Completed)\<rparr>
                              else entry) (queue s),
       isPaused := False\<rparr>"

definition onend :: "jsstring \<Rightarrow> bool \<Rightarrow> State \<Rightarrow> State" where
  "onend itemId engineSpeaking s = onendUpdate itemId engineSpeaking (onendCallback s)"

text \<open>
  An end event seen at both moments: the engine shows \<open>speakingAtCallback\<close> while the
  callback runs and \<open>speakingAtUpdate\<close> when React runs the updater. The callback does
  not read the flag, so only the second one occurs on the right.
\<close>

definition onendObserved :: "jsstring \<Rightarrow> bool \<Rightarrow> bool \<Rightarrow> State \<Rightarrow> State" where
  "onendObserved itemId speakingAtCallback speakingAtUpdate s =
     onendUpdate itemId speakingAtUpdate (onendCallback s)"

definition onerror :: "jsstring \<Rightarrow> jsstring option \<Rightarrow> State \<Rightarrow> State" where
  "onerror itemId eventError s =
     s\<lparr>queue := map (\<lambda>entry. if item_id entry = itemId
                              then entry\<lparr>status := Error,
                                         error := Some (case eventError of
                                                          Some e \<Rightarrow> e
                                                        | None \<Rightarrow> js ''Unknown error'')\<rparr>
                              else entry) (queue s),
       currentUtteranceRef := None,
       isPaused := False\<rparr>"

text \<open>The second effect: it runs after a render in which one of its dependencies changed.\<close>

definition dispatchEffect :: "State \<Rightarrow> State" where
  "dispatchEffect s =
     (if \<not> speechRef s \<or> \<not> supportsSpeech s then s
      else (case find (\<lambda>item. status item = Speaking) (queue s) of
              Some current \<Rightarrow> s
            | None \<Rightarrow>
                if isPaused s then s
                else (case find (\<lambda>item. status item = Pending) (queue s) of
                        Some next \<Rightarrow> speak next s
                      | None \<Rightarrow> s)))"

subsection \<open>The handlers of the buttons\<close>

text \<open>\<open>randomId\<close> is the value that \<open>randomId()\<close> returned.\<close>

definition handleAddToQueue :: "jsstring \<Rightarrow> State \<Rightarrow> State" where
  "handleAddToQueue randomId s =
     (let trimmed = trim (text' s)
      in if trimmed = [] then s
         else (let item =
                     \<lparr>item_id = randomId, item_text = trimmed,
                      voiceId = (case selectedVoiceInfo s of Some v \<Rightarrow> vid v | None \<Rightarrow> []),
                      item_rate = rate s, item_pitch = pitch s, item_volume = volume s,
                      status = Pending, error = None\<rparr>
               in s\<lparr>queue := queue s @ [item]\<rparr>))"

definition handleSpeakNow :: "jsstring \<Rightarrow> State \<Rightarrow> State" where
  "handleSpeakNow randomId s = handleAddToQueue randomId s"

definition handleStop :: "State \<Rightarrow> State" where
  "handleStop s =
     (if \<not> speechRef s then s
      else s\<lparr>engine := engine_cancel (engine s),
             currentUtteranceRef := None,
             queue := map (\<lambda>entry. if status entry = Speaking then entry\<lparr>status := Cancelled\<rparr>
                                    else entry) (queue s),
             isPaused := False\<rparr>)"

text \<open>
  \<open>engineSpeaking\<close> and \<open>enginePaused\<close> are the engine's flags \<open>speaking\<close> and
  \<open>paused\<close> when the handler runs.
\<close>

definition handlePauseResume :: "bool \<Rightarrow> bool \<Rightarrow> State \<Rightarrow> State" where
  "handlePauseResume engineSpeaking enginePaused s =
     (if \<not> speechRef s then s
      else if engineSpeaking \<and> \<not> enginePaused
           then s\<lparr>engine := engine_pause (engine s), isPaused := True\<rparr>
      else if enginePaused
           then s\<lparr>engine := engine_resume (engine s), isPaused := False\<rparr>
      else s)"

definition handleClearCompleted :: "State \<Rightarrow> State" where
  "handleClearCompleted s =
     s\<lparr>queue := filter (\<lambda>item. status item = Pending \<or> status item = Speaking) (queue s)\<rparr>"

subsection \<open>Events and reachable states\<close>

text \<open>
  Everything that can happen to the page: the first effect and the engine's
  voices-changed notification, the form controls, the four buttons, a run of the dispatch
  effect, and the callbacks of the engine. The engine delivers the start event of the
  utterance at the head of its queue once, its end event after the start, its error event
  at any time, and an end or error event for an utterance that \<open>cancel\<close> removed. An
  end event stands for the callback together with React's update, and carries the flag
  the engine shows when the updater runs. An event that cannot happen in a state has no
  successor. React runs the dispatch effect
  after a render in which \<open>queue\<close>, \<open>isPaused\<close>, \<open>speak\<close> or \<open>supportsSpeech\<close>
  changed; here it is an event of its own that may happen in any state, which covers
  those runs.
\<close>

datatype Event =
    VoicesEffect bool "(jsstring \<times> jsstring) list"
  | VoicesChanged "(jsstring \<times> jsstring) list"
  | SetText jsstring
  | SetSelectedVoice jsstring
  | SetRate real
  | SetPitch real
  | SetVolume real
  | AddToQueue jsstring
  | Stop
  | PauseResume bool bool
  | ClearCompleted
  | DispatchEffect
  | OnStart
  | OnEnd bool
  | OnError "jsstring option"
  | StaleEnd nat bool
  | StaleError nat "jsstring option"

definition dropNth :: "nat \<Rightarrow> 'a list \<Rightarrow> 'a list" where
  "dropNth i xs = take i xs @ drop (Suc i) xs"

fun step :: "Event \<Rightarrow> State \<Rightarrow> State option" where
  "step (VoicesEffect hasSynthesis vs) s = Some (voicesEffect hasSynthesis vs s)"
| "step (VoicesChanged vs) s = (if speechRef s then Some (mapVoices vs s) else None)"
| "step (SetText t) s = Some (s\<lparr>text' := t\<rparr>)"
| "step (SetSelectedVoice v) s = Some (s\<lparr>selectedVoice := v\<rparr>)"
| "step (SetRate r) s = Some (s\<lparr>rate := r\<rparr>)"
| "step (SetPitch p) s = Some (s\<lparr>pitch := p\<rparr>)"
| "step (SetVolume v) s = Some (s\<lparr>volume := v\<rparr>)"
| "step (AddToQueue randomId) s = Some (handleAddToQueue randomId s)"
| "step Stop s = Some (handleStop s)"
| "step (PauseResume engineSpeaking enginePaused) s =
     Some (handlePauseResume engineSpeaking enginePaused s)"
| "step ClearCompleted s = Some (handleClearCompleted s)"
| "step DispatchEffect s = Some (dispatchEffect s)"
| "step OnStart s =
     (case utts (engine s) of
        [] \<Rightarrow> None
      | u # us \<Rightarrow>
          if started (engine s) then None
          else Some ((onstart (uitem u) s)\<lparr>engine := (engine s)\<lparr>started := True\<rparr>\<rparr>))"
| "step (OnEnd engineSpeaking) s =
     (case utts (engine s) of
        [] \<Rightarrow> None
      | u # us \<Rightarrow>
          if \<not> started (engine s) then None
          else Some ((onend (uitem u) engineSpeaking s)
                       \<lparr>engine := (engine s)\<lparr>utts := us, started := False\<rparr>\<rparr>))"
| "step (OnError eventError) s =
     (case utts (engine s) of
        [] \<Rightarrow> None
      | u # us \<Rightarrow>
          Some ((onerror (uitem u) eventError s)
                  \<lparr>engine := (engine s)\<lparr>utts := us, started := False\<rparr>\<rparr>))"
| "step (StaleEnd i engineSpeaking) s =
     (if i < length (stale (engine s))
      then Some ((onend (uitem (stale (engine s) ! i)) engineSpeaking s)
                   \<lparr>engine := (engine s)\<lparr>stale := dropNth i (stale (engine s))\<rparr>\<rparr>)
      else None)"
| "step (StaleError i eventError) s =
     (if i < length (stale (engine s))
      then Some ((onerror (uitem (stale (engine s) ! i)) eventError s)
                   \<lparr>engine := (engine s)\<lparr>stale := dropNth i (stale (engine s))\<rparr>\<rparr>)
      else None)"

fun run :: "Event list \<Rightarrow> State \<Rightarrow> State option" where
  "run [] s = Some s"
| "run (ev # evs) s = (case step ev s of None \<Rightarrow> None | Some s' \<Rightarrow> run evs s')"

inductive reachable :: "State \<Rightarrow> bool" where
  reachable_initial: "reachable initial"
| reachable_step: "reachable s \<Longrightarrow> step ev s = Some s' \<Longrightarrow> reachable s'"

definition speakingCount :: "State \<Rightarrow> nat" where
  "speakingCount s = length (filter (\<lambda>item. status item = Speaking) (queue s))"

definition statuses :: "State \<Rightarrow> QueueItemStatus list" where
  "statuses s = map status (queue s)"

subsection \<open>Notions used by the properties\<close>

text \<open>The legal ranges of rate, pitch and volume, which are also the bounds of the sliders.\<close>

definition legalProsody :: "QueueItem \<Rightarrow> bool" where
  "legalProsody item =
     (0.5 \<le> item_rate item \<and> item_rate item \<le> 2
      \<and> 0 \<le> item_pitch item \<and> item_pitch item \<le> 2
      \<and> 0 \<le> item_volume item \<and> item_volume item \<le> 1)"

text \<open>
  Rate, pitch and volume are written only by the \<open>onChange\<close> handlers of three
  \<open>input type="range"\<close> elements, which pass on the value the element holds. The
  browser keeps that value sanitized: a value below \<open>min\<close> becomes \<open>min\<close>, a value
  above \<open>max\<close> becomes \<open>max\<close>, and a value in between is rounded to the nearest step
  counted from \<open>min\<close>, upwards when it is halfway. For the three inputs of the page
  \<open>max\<close> lies on the steps. \<open>rangeInput min max step v\<close> is the value the element
  holds after \<open>v\<close> was given to it.
\<close>

definition rangeInput :: "real \<Rightarrow> real \<Rightarrow> real \<Rightarrow> real \<Rightarrow> real" where
  "rangeInput lo hi stp v =
     (if v < lo then lo
      else if hi < v then hi
      else lo + of_int \<lfloor>(v - lo) / stp + 1 / 2\<rfloor> * stp)"



text \<open>The selected values and all stored requests are inside the legal ranges.\<close>

definition prosodyLegal :: "State \<Rightarrow> bool" where
  "prosodyLegal s =
     (0.5 \<le> rate s \<and> rate s \<le> 2 \<and> 0 \<le> pitch s \<and> pitch s \<le> 2
      \<and> 0 \<le> volume s \<and> volume s \<le> 1
      \<and> list_all legalProsody (queue s))"

text \<open>The events that are callbacks of an utterance.\<close>

definition utteranceCallback :: "Event \<Rightarrow> bool" where
  "utteranceCallback ev =
     (case ev of
        OnStart \<Rightarrow> True
      | OnEnd _ \<Rightarrow> True
      | OnError _ \<Rightarrow> True
      | StaleEnd _ _ \<Rightarrow> True
      | StaleError _ _ \<Rightarrow> True
      | _ \<Rightarrow> False)"

text \<open>
  How one event may change a request that stays at its place in the queue: it keeps its
  id, it does not become pending, and unless the event is a callback of an utterance its
  status stays, or goes from speaking to cancelled when the event is the stop button.
\<close>

definition statusStep :: "Event \<Rightarrow> QueueItem \<Rightarrow> QueueItem \<Rightarrow> bool" where
  "statusStep ev old new =
     (item_id new = item_id old
      \<and> (status new = Pending \<longrightarrow> status old = Pending)
      \<and> (\<not> utteranceCallback ev \<longrightarrow>
            status new = status old
            \<or> (ev = Stop \<and> status old = Speaking \<and> status new = Cancelled)))"

text \<open>
  Every speaking request carries the id of the utterance at the head of the engine's
  queue, and that utterance has started.
\<close>

definition engineDriven :: "State \<Rightarrow> bool" where
  "engineDriven s =
     (\<forall>entry \<in> set (queue s). status entry = Speaking \<longrightarrow>
        started (engine s) \<and> utts (engine s) \<noteq> []
        \<and> uitem (hd (utts (engine s))) = item_id entry)"

text \<open>
  The ids that \<open>randomId()\<close> returned during a run, the ids of the requests handed to
  the engine's \<open>speak\<close> so far, and the ids of the pending requests, each in order.
\<close>

fun randomIds :: "Event list \<Rightarrow> jsstring list" where
  "randomIds [] = []"
| "randomIds (AddToQueue randomId # evs) = randomId # randomIds evs"
| "randomIds (_ # evs) = randomIds evs"

fun spoken :: "EngineCall list \<Rightarrow> jsstring list" where
  "spoken [] = []"
| "spoken (Speak u # cs) = uitem u # spoken cs"
| "spoken (_ # cs) = spoken cs"

definition dispatched :: "State \<Rightarrow> jsstring list" where
  "dispatched s = spoken (calls (engine s))"

definition pendingIds :: "State \<Rightarrow> jsstring list" where
  "pendingIds s = map item_id (filter (\<lambda>item. status item = Pending) (queue s))"

fun indexOf :: "'a list \<Rightarrow> 'a \<Rightarrow> nat" where
  "indexOf [] x = 0"
| "indexOf (y # ys) x = (if x = y then 0 else Suc (indexOf ys x))"

text \<open>
  The dispatched requests, followed by the pending ones, are in the order in which their
  ids were drawn.
\<close>

definition inOrder :: "jsstring list \<Rightarrow> State \<Rightarrow> bool" where
  "inOrder ids s =
     (set (dispatched s @ pendingIds s) \<subseteq> set ids
      \<and> sorted (map (indexOf ids) (dispatched s @ pendingIds s)))"

subsection \<open>Concrete states and runs\<close>

text \<open>The page after its first effect, on a browser with a speech engine and no voices yet.\<close>

definition ready :: State where
  "ready = voicesEffect True [] initial"

text \<open>One request, enqueued, dispatched and started.\<close>

definition speakingState :: State where
  "speakingState =
     the (run [VoicesEffect True [], AddToQueue (js ''a''), DispatchEffect, OnStart] initial)"

text \<open>Two requests that drew the same id; the first is dispatched and starts.\<close>

definition duplicateIdRun :: "Event list" where
  "duplicateIdRun =
     [VoicesEffect True [],
      SetText (js ''first''), AddToQueue (js ''i''),
      SetText (js ''second''), AddToQueue (js ''i''),
      DispatchEffect, OnStart]"

text \<open>
  Three requests with different ids: the first is stopped while it speaks, the second
  has started, the third waits.
\<close>

definition secondSpeaking :: State where
  "secondSpeaking =
     the (run [VoicesEffect True [],
               SetText (js ''first''), AddToQueue (js ''a''), DispatchEffect, OnStart,
               SetText (js ''second''), AddToQueue (js ''b''), DispatchEffect,
               SetText (js ''third''), AddToQueue (js ''c''), DispatchEffect,
               Stop, DispatchEffect, OnStart] initial)"


definition itemWith :: "string \<Rightarrow> QueueItemStatus \<Rightarrow> QueueItem" where
  "itemWith n st =
     \<lparr>item_id = js n, item_text = js ''hello'', voiceId = [], item_rate = 1, item_pitch = 1,
      item_volume = 1, status = st, error = None\<rparr>"

text \<open>
  Three requests; the first starts before the others are added, and each utterance ends
  with the engine silent.
\<close>

definition abcRun :: "Event list" where
  "abcRun =
     [VoicesEffect True [],
      SetText (js ''first''), AddToQueue (js ''a''), DispatchEffect, OnStart,
      SetText (js ''second''), AddToQueue (js ''b''), DispatchEffect,
      SetText (js ''third''), AddToQueue (js ''c''), DispatchEffect,
      OnEnd False, DispatchEffect, OnStart,
      OnEnd False, DispatchEffect, OnStart,
      OnEnd False, DispatchEffect]"

section \<open>Properties\<close>

lemmas page_defs =
  handleAddToQueue_def handleStop_def handlePauseResume_def handleClearCompleted_def
  dispatchEffect_def speak_def utteranceOf_def onstart_def onend_def onendCallback_def
  onendUpdate_def onerror_def
  voicesEffect_def mapVoices_def selectedVoiceInfo_def engine_cancel_def engine_speak_def
  engine_pause_def engine_resume_def dropNth_def initial_def defaultText_def js_def trim_def
  isWhiteSpace_def statuses_def speakingCount_def Let_def

subsection \<open>Runs\<close>

lemma run_reachable: "reachable s \<Longrightarrow> run evs s = Some s' \<Longrightarrow> reachable s'"
  by (induction evs arbitrary: s) (auto split: option.splits intro: reachable_step)

lemma run_speakingState:
  "run [VoicesEffect True [], AddToQueue (js ''a''), DispatchEffect, OnStart] initial
     = Some speakingState"
  by (simp add: speakingState_def page_defs)

lemma reachable_speakingState: "reachable speakingState"
  using reachable_initial run_speakingState by (rule run_reachable)

lemma speakingState_queue:
  "queue speakingState =
     [\<lparr>item_id = js ''a'', item_text = defaultText, voiceId = [], item_rate = 1,
       item_pitch = 1, item_volume = 1, status = Speaking, error = None\<rparr>]"
  by (simp add: speakingState_def page_defs)

lemma speakingState_speechRef: "speechRef speakingState"
  by (simp add: speakingState_def page_defs)

lemma dispatchEffect_queue: "queue (dispatchEffect s) = queue s"
  by (simp add: dispatchEffect_def speak_def Let_def split: option.splits)

lemma mapVoices_queue: "queue (mapVoices vs s) = queue s"
  by (simp add: mapVoices_def Let_def)

lemma voicesEffect_queue: "queue (voicesEffect b vs s) = queue s"
  by (simp add: voicesEffect_def mapVoices_queue)

lemma handlePauseResume_queue: "queue (handlePauseResume sp pa s) = queue s"
  by (simp add: handlePauseResume_def)

subsection \<open>At most one request is speaking\<close>

lemma engineDriven_initial: "engineDriven initial"
  by (simp add: engineDriven_def initial_def)

lemma engineDriven_dispatchEffect: "engineDriven s \<Longrightarrow> engineDriven (dispatchEffect s)"
  by (auto simp: engineDriven_def dispatchEffect_def speak_def Let_def find_None_iff
           split: option.splits)

lemma engineDriven_step:
  assumes "engineDriven s" and "step ev s = Some s'"
  shows "engineDriven s'"
proof (cases ev)
  case DispatchEffect
  with assms show ?thesis by (auto simp: engineDriven_dispatchEffect)
next
  case OnStart
  with assms show ?thesis
    by (auto simp: engineDriven_def onstart_def split: list.splits if_splits)
next
  case (OnEnd sp)
  with assms show ?thesis
    by (auto simp: engineDriven_def onend_def onendCallback_def onendUpdate_def split: list.splits if_splits)
next
  case (OnError err)
  with assms show ?thesis
    by (auto simp: engineDriven_def onerror_def split: list.splits if_splits)
next
  case (StaleEnd i sp)
  with assms show ?thesis
    by (auto simp: engineDriven_def onend_def onendCallback_def onendUpdate_def split: list.splits if_splits)
next
  case (StaleError i err)
  with assms show ?thesis
    by (auto simp: engineDriven_def onerror_def split: list.splits if_splits)
next
  case Stop
  with assms show ?thesis
    by (auto simp: engineDriven_def handleStop_def split: if_splits)
next
  case (PauseResume sp pa)
  with assms show ?thesis
    by (auto simp: engineDriven_def handlePauseResume_def engine_pause_def engine_resume_def
             split: if_splits)
next
  case ClearCompleted
  with assms show ?thesis
    by (auto simp: engineDriven_def handleClearCompleted_def)
next
  case (AddToQueue rid)
  with assms show ?thesis
    by (auto simp: engineDriven_def handleAddToQueue_def Let_def split: if_splits)
next
  case (VoicesEffect b vs)
  with assms show ?thesis
    by (auto simp: engineDriven_def voicesEffect_def mapVoices_def Let_def split: if_splits)
next
  case (VoicesChanged vs)
  with assms show ?thesis
    by (auto simp: engineDriven_def mapVoices_def Let_def split: if_splits)
qed (use assms in \<open>auto simp: engineDriven_def\<close>)

lemma reachable_engineDriven: "reachable s \<Longrightarrow> engineDriven s"
  by (induction rule: reachable.induct) (auto intro: engineDriven_initial engineDriven_step)

lemma same_key_filter_short:
  assumes "distinct (map f xs)" and "\<forall>x \<in> set xs. P x \<longrightarrow> f x = c"
  shows "length (filter P xs) \<le> 1"
proof -
  have d: "distinct (map f (filter P xs))"
    using assms(1) by (simp add: distinct_map_filter)
  have "map f (filter P xs) = replicate (length (filter P xs)) c"
    using assms(2) by (induction xs) auto
  with d have "distinct (replicate (length (filter P xs)) c)" by simp
  then show ?thesis
    by (cases "filter P xs"; cases "tl (filter P xs)") auto
qed

lemma speaking_after_le:
  assumes "\<And>entry. status (f entry) = Speaking \<Longrightarrow> status entry = Speaking"
  shows "length (filter ((\<lambda>item. status item = Speaking) \<circ> f) q)
           \<le> length (filter (\<lambda>item. status item = Speaking) q)"
proof (induction q)
  case Nil
  show ?case by simp
next
  case (Cons e q)
  with assms [of e] show ?case by (simp add: comp_def)
qed

lemma speakingCount_onend: "speakingCount (onend r sp s) \<le> speakingCount s"
  by (auto simp: speakingCount_def onend_def onendCallback_def onendUpdate_def intro!: speaking_after_le split: if_splits)

lemma speakingCount_onerror: "speakingCount (onerror r err s) \<le> speakingCount s"
  by (auto simp: speakingCount_def onerror_def intro!: speaking_after_le split: if_splits)

lemma speakingCount_handleStop: "speakingCount (handleStop s) \<le> speakingCount s"
  by (auto simp: speakingCount_def handleStop_def intro!: speaking_after_le split: if_splits)

lemma speakingCount_engine: "speakingCount (s\<lparr>engine := e\<rparr>) = speakingCount s"
  by (simp add: speakingCount_def)

lemma speakingCount_queue: "queue s' = queue s \<Longrightarrow> speakingCount s' = speakingCount s"
  by (simp add: speakingCount_def)

lemma speakingCount_handleAddToQueue: "speakingCount (handleAddToQueue r s) = speakingCount s"
  by (simp add: speakingCount_def handleAddToQueue_def Let_def)

lemma speakingCount_handleClearCompleted:
  "speakingCount (handleClearCompleted s) = speakingCount s"
proof -
  have "filter (\<lambda>item. status item = Speaking)
          (filter (\<lambda>item. status item = Pending \<or> status item = Speaking) q)
        = filter (\<lambda>item. status item = Speaking) q" for q :: "QueueItem list"
    by (induction q) auto
  then show ?thesis
    by (simp add: speakingCount_def handleClearCompleted_def)
qed

lemma speakingCount_step:
  assumes "step ev s = Some s'" and "ev \<noteq> OnStart"
  shows "speakingCount s' \<le> speakingCount s"
proof (cases ev)
  case (OnEnd sp)
  show ?thesis
  proof (cases "utts (engine s)")
    case Nil
    with assms(1) OnEnd show ?thesis by simp
  next
    case (Cons u us)
    with assms(1) OnEnd
    have "s' = (onend (uitem u) sp s)\<lparr>engine := (engine s)\<lparr>utts := us, started := False\<rparr>\<rparr>"
      by (simp split: if_splits)
    then show ?thesis by (simp only: speakingCount_engine speakingCount_onend)
  qed
next
  case (OnError err)
  show ?thesis
  proof (cases "utts (engine s)")
    case Nil
    with assms(1) OnError show ?thesis by simp
  next
    case (Cons u us)
    with assms(1) OnError
    have "s' = (onerror (uitem u) err s)\<lparr>engine := (engine s)\<lparr>utts := us, started := False\<rparr>\<rparr>"
      by simp
    then show ?thesis by (simp only: speakingCount_engine speakingCount_onerror)
  qed
next
  case (StaleEnd i sp)
  with assms(1)
  have "s' = (onend (uitem (stale (engine s) ! i)) sp s)
               \<lparr>engine := (engine s)\<lparr>stale := dropNth i (stale (engine s))\<rparr>\<rparr>"
    by (simp split: if_splits)
  then show ?thesis by (simp only: speakingCount_engine speakingCount_onend)
next
  case (StaleError i err)
  with assms(1)
  have "s' = (onerror (uitem (stale (engine s) ! i)) err s)
               \<lparr>engine := (engine s)\<lparr>stale := dropNth i (stale (engine s))\<rparr>\<rparr>"
    by (simp split: if_splits)
  then show ?thesis by (simp only: speakingCount_engine speakingCount_onerror)
next
  case OnStart
  with assms(2) show ?thesis by simp
next
  case Stop
  with assms(1) have "s' = handleStop s" by simp
  then show ?thesis by (simp only: speakingCount_handleStop)
next
  case (VoicesEffect b vs)
  with assms(1) have "s' = voicesEffect b vs s" by simp
  then show ?thesis by (simp only: speakingCount_queue [OF voicesEffect_queue])
next
  case (VoicesChanged vs)
  with assms(1) have "s' = mapVoices vs s" by (simp split: if_splits)
  then show ?thesis by (simp only: speakingCount_queue [OF mapVoices_queue])
next
  case (AddToQueue r)
  with assms(1) have "s' = handleAddToQueue r s" by simp
  then show ?thesis by (simp only: speakingCount_handleAddToQueue)
next
  case (PauseResume sp pa)
  with assms(1) have "s' = handlePauseResume sp pa s" by simp
  then show ?thesis by (simp only: speakingCount_queue [OF handlePauseResume_queue])
next
  case ClearCompleted
  with assms(1) have "s' = handleClearCompleted s" by simp
  then show ?thesis by (simp only: speakingCount_handleClearCompleted)
next
  case DispatchEffect
  with assms(1) have "s' = dispatchEffect s" by simp
  then show ?thesis by (simp only: speakingCount_queue [OF dispatchEffect_queue])
next
  case (SetText t)
  with assms(1) show ?thesis by (auto simp: speakingCount_def)
next
  case (SetSelectedVoice v)
  with assms(1) show ?thesis by (auto simp: speakingCount_def)
next
  case (SetRate r)
  with assms(1) show ?thesis by (auto simp: speakingCount_def)
next
  case (SetPitch p)
  with assms(1) show ?thesis by (auto simp: speakingCount_def)
next
  case (SetVolume v)
  with assms(1) show ?thesis by (auto simp: speakingCount_def)
qed

lemma dispatchEffect_calls:
  assumes "calls (engine (dispatchEffect s)) \<noteq> calls (engine s)"
  shows "speakingCount s = 0"
proof -
  from assms have "dispatchEffect s \<noteq> s" by auto
  then have "find (\<lambda>item. status item = Speaking) (queue s) = None"
    by (auto simp: dispatchEffect_def split: if_splits option.splits)
  then show ?thesis
    unfolding find_None_iff speakingCount_def by (simp add: filter_empty_conv)
qed

text \<open>
  Claim C1, as stated, fails: \<open>randomId()\<close> can return the same id twice, the start
  callback marks every request that carries its id, and then two requests are speaking.
\<close>

theorem at_most_one_speaking_counterexample:
  "map_option statuses (run duplicateIdRun initial) = Some [Speaking, Speaking]
   \<and> map_option speakingCount (run duplicateIdRun initial) = Some 2
   \<and> reachable (the (run duplicateIdRun initial))"
proof -
  have r: "run duplicateIdRun initial = Some (the (run duplicateIdRun initial))"
    by (simp add: duplicateIdRun_def page_defs)
  have "reachable (the (run duplicateIdRun initial))"
    using reachable_initial r by (rule run_reachable)
  moreover have "map_option statuses (run duplicateIdRun initial) = Some [Speaking, Speaking]"
    by (simp add: duplicateIdRun_def page_defs)
  moreover have "map_option speakingCount (run duplicateIdRun initial) = Some 2"
    by (simp add: duplicateIdRun_def page_defs)
  ultimately show ?thesis by blast
qed

text \<open>
  Claim C1, amended. The engine delivers a start event only for the utterance at the head
  of its queue, and none for an utterance that \<open>cancel\<close> removed; that is how the
  reachable states are defined. Then in every reachable state whose requests have
  pairwise distinct ids at most one request has status speaking, and in every reachable
  state all speaking requests carry one id. The dispatch effect calls the engine only when
  no request is speaking, and no event other than the start event of an utterance raises
  the number of speaking requests.
\<close>

theorem at_most_one_speaking:
  "(reachable s \<and> distinct (map item_id (queue s)) \<longrightarrow> speakingCount s \<le> 1)
   \<and> (reachable s \<longrightarrow>
        (\<forall>x \<in> set (queue s). \<forall>y \<in> set (queue s).
           status x = Speaking \<and> status y = Speaking \<longrightarrow> item_id x = item_id y))
   \<and> (calls (engine (dispatchEffect t)) \<noteq> calls (engine t) \<longrightarrow> speakingCount t = 0)
   \<and> (step ev t = Some t' \<and> ev \<noteq> OnStart \<longrightarrow> speakingCount t' \<le> speakingCount t)"
proof (intro conjI impI)
  assume a: "reachable s \<and> distinct (map item_id (queue s))"
  then have "engineDriven s" by (simp add: reachable_engineDriven)
  then have "\<forall>x \<in> set (queue s). status x = Speaking \<longrightarrow> item_id x = uitem (hd (utts (engine s)))"
    by (auto simp: engineDriven_def)
  with a show "speakingCount s \<le> 1"
    unfolding speakingCount_def by (intro same_key_filter_short) auto
next
  assume "reachable s"
  then have "engineDriven s" by (rule reachable_engineDriven)
  then have "\<forall>x \<in> set (queue s). status x = Speaking \<longrightarrow> item_id x = uitem (hd (utts (engine s)))"
    by (auto simp: engineDriven_def)
  then show "\<forall>x \<in> set (queue s). \<forall>y \<in> set (queue s).
           status x = Speaking \<and> status y = Speaking \<longrightarrow> item_id x = item_id y"
    by metis
next
  assume "calls (engine (dispatchEffect t)) \<noteq> calls (engine t)"
  then show "speakingCount t = 0" by (rule dispatchEffect_calls)
next
  assume "step ev t = Some t' \<and> ev \<noteq> OnStart"
  then show "speakingCount t' \<le> speakingCount t"
    using speakingCount_step by blast
qed

lemma run_secondSpeaking:
  "run [VoicesEffect True [],
        SetText (js ''first''), AddToQueue (js ''a''), DispatchEffect, OnStart,
        SetText (js ''second''), AddToQueue (js ''b''), DispatchEffect,
        SetText (js ''third''), AddToQueue (js ''c''), DispatchEffect,
        Stop, DispatchEffect, OnStart] initial = Some secondSpeaking"
  by (simp add: secondSpeaking_def page_defs)

lemma secondSpeaking_facts:
  "statuses secondSpeaking = [Cancelled, Speaking, Pending]"
  "map item_id (queue secondSpeaking) = [js ''a'', js ''b'', js ''c'']"
  by (simp_all add: secondSpeaking_def page_defs)

theorem at_most_one_speaking_witness:
  "reachable secondSpeaking \<and> distinct (map item_id (queue secondSpeaking))
   \<and> statuses secondSpeaking = [Cancelled, Speaking, Pending]
   \<and> speakingCount secondSpeaking \<le> 1
   \<and> step Stop secondSpeaking = Some (handleStop secondSpeaking)
   \<and> speakingCount (handleStop secondSpeaking) \<le> speakingCount secondSpeaking"
proof -
  have r: "reachable secondSpeaking"
    using reachable_initial run_secondSpeaking by (rule run_reachable)
  have d: "distinct (map item_id (queue secondSpeaking))"
    by (simp add: secondSpeaking_facts js_def)
  have h: "step Stop secondSpeaking = Some (handleStop secondSpeaking)" by simp
  from at_most_one_speaking [of secondSpeaking secondSpeaking Stop "handleStop secondSpeaking"]
    d r h
  show ?thesis by (simp add: secondSpeaking_facts)
qed

subsection \<open>How statuses move\<close>

lemma callback_statuses:
  "i < length (queue s) \<Longrightarrow>
     status (queue (onstart r s) ! i) =
       (if item_id (queue s ! i) = r then Speaking else status (queue s ! i))
     \<and> item_id (queue (onstart r s) ! i) = item_id (queue s ! i)"
  "i < length (queue s) \<Longrightarrow>
     status (queue (onend r sp s) ! i) =
       (if item_id (queue s ! i) = r then (if speechRef s \<and> sp then Cancelled else Completed)
        else status (queue s ! i))
     \<and> item_id (queue (onend r sp s) ! i) = item_id (queue s ! i)"
  "i < length (queue s) \<Longrightarrow>
     status (queue (onerror r err s) ! i) =
       (if item_id (queue s ! i) = r then Error else status (queue s ! i))
     \<and> item_id (queue (onerror r err s) ! i) = item_id (queue s ! i)"
  by (simp_all add: onstart_def onend_def onendCallback_def onendUpdate_def onerror_def)

lemma callback_lengths:
  "length (queue (onstart r s)) = length (queue s)"
  "length (queue (onend r sp s)) = length (queue s)"
  "length (queue (onerror r err s)) = length (queue s)"
  by (simp_all add: onstart_def onend_def onendCallback_def onendUpdate_def onerror_def)

text \<open>
  Claim C2, as stated, fails. A request that the stop button cancelled becomes completed
  when the end event of its utterance arrives afterwards. A pending request that was
  dispatched a second time, because the voices changed before its utterance started,
  becomes error through the error event of the first utterance, and speaking when the
  second utterance starts.
\<close>

theorem status_only_forward_counterexample:
  "map_option statuses
     (run [VoicesEffect True [], AddToQueue (js ''a''), DispatchEffect, OnStart, Stop,
           DispatchEffect]
        initial) = Some [Cancelled]
   \<and> map_option statuses
     (run [VoicesEffect True [], AddToQueue (js ''a''), DispatchEffect, OnStart, Stop,
           DispatchEffect, StaleEnd 0 False]
        initial) = Some [Completed]
   \<and> map_option statuses
     (run [VoicesEffect True [], AddToQueue (js ''a''), DispatchEffect,
           VoicesChanged [(js ''Alex'', js ''en-US'')], DispatchEffect,
           StaleError 0 (Some (js ''canceled'')), DispatchEffect]
        initial) = Some [Error]
   \<and> map_option statuses
     (run [VoicesEffect True [], AddToQueue (js ''a''), DispatchEffect,
           VoicesChanged [(js ''Alex'', js ''en-US'')], DispatchEffect,
           StaleError 0 (Some (js ''canceled'')), DispatchEffect, OnStart]
        initial) = Some [Speaking]"
  by (simp add: page_defs startsWithEn_def)

lemma callback_overwrites:
  assumes "step ev s = Some s'" and "utteranceCallback ev"
  shows "\<exists>r st. st \<noteq> Pending
           \<and> (\<forall>i < length (queue s).
                 status (queue s' ! i) = (if item_id (queue s ! i) = r then st else status (queue s ! i)))"
proof (cases ev)
  case OnStart
  with assms(1) obtain u us where "utts (engine s) = u # us"
    and s': "queue s' = queue (onstart (uitem u) s)"
    by (cases "utts (engine s)") (auto split: if_splits)
  have "Speaking \<noteq> Pending
        \<and> (\<forall>i < length (queue s).
              status (queue s' ! i) = (if item_id (queue s ! i) = uitem u then Speaking else status (queue s ! i)))"
    unfolding s' by (simp add: callback_statuses)
  then show ?thesis by blast
next
  case (OnEnd sp)
  with assms(1) obtain u us where "utts (engine s) = u # us"
    and s': "queue s' = queue (onend (uitem u) sp s)"
    by (cases "utts (engine s)") (auto split: if_splits)
  have "(if speechRef s \<and> sp then Cancelled else Completed) \<noteq> Pending
        \<and> (\<forall>i < length (queue s).
              status (queue s' ! i) = (if item_id (queue s ! i) = uitem u then (if speechRef s \<and> sp then Cancelled else Completed) else status (queue s ! i)))"
    unfolding s' by (simp add: callback_statuses)
  then show ?thesis by blast
next
  case (OnError err)
  with assms(1) obtain u us where "utts (engine s) = u # us"
    and s': "queue s' = queue (onerror (uitem u) err s)"
    by (cases "utts (engine s)") (auto split: if_splits)
  have "Error \<noteq> Pending
        \<and> (\<forall>i < length (queue s).
              status (queue s' ! i) = (if item_id (queue s ! i) = uitem u then Error else status (queue s ! i)))"
    unfolding s' by (simp add: callback_statuses)
  then show ?thesis by blast
next
  case (StaleEnd k sp)
  with assms(1) have s': "queue s' = queue (onend (uitem (stale (engine s) ! k)) sp s)"
    by (auto split: if_splits)
  have "(if speechRef s \<and> sp then Cancelled else Completed) \<noteq> Pending
        \<and> (\<forall>i < length (queue s).
              status (queue s' ! i) = (if item_id (queue s ! i) = uitem (stale (engine s) ! k) then (if speechRef s \<and> sp then Cancelled else Completed) else status (queue s ! i)))"
    unfolding s' by (simp add: callback_statuses)
  then show ?thesis by blast
next
  case (StaleError k err)
  with assms(1) have s': "queue s' = queue (onerror (uitem (stale (engine s) ! k)) err s)"
    by (auto split: if_splits)
  have "Error \<noteq> Pending
        \<and> (\<forall>i < length (queue s).
              status (queue s' ! i) = (if item_id (queue s ! i) = uitem (stale (engine s) ! k) then Error else status (queue s ! i)))"
    unfolding s' by (simp add: callback_statuses)
  then show ?thesis by blast
qed (use assms(2) in \<open>simp_all add: utteranceCallback_def\<close>)

lemma status_moves_positions:
  assumes "step ev s = Some s'"
  shows "(ev = ClearCompleted \<longrightarrow> subseq (queue s') (queue s))
       \<and> (ev \<noteq> ClearCompleted \<longrightarrow>
            length (queue s) \<le> length (queue s')
            \<and> (\<forall>i < length (queue s). statusStep ev (queue s ! i) (queue s' ! i))
            \<and> (\<forall>i < length (queue s'). length (queue s) \<le> i \<longrightarrow>
                  status (queue s' ! i) = Pending))"
proof (cases ev)
  case ClearCompleted
  with assms show ?thesis by (auto simp: handleClearCompleted_def)
next
  case (AddToQueue r)
  with assms show ?thesis
    by (auto simp: handleAddToQueue_def Let_def statusStep_def utteranceCallback_def nth_append
             split: if_splits)
next
  case Stop
  with assms show ?thesis
    by (auto simp: handleStop_def statusStep_def utteranceCallback_def split: if_splits)
next
  case OnStart
  with assms show ?thesis
    by (auto simp: statusStep_def utteranceCallback_def callback_statuses callback_lengths
             split: list.splits if_splits)
next
  case (OnEnd sp)
  with assms show ?thesis
    by (auto simp: statusStep_def utteranceCallback_def callback_statuses callback_lengths
             split: list.splits if_splits)
next
  case (OnError err)
  with assms show ?thesis
    by (auto simp: statusStep_def utteranceCallback_def callback_statuses callback_lengths
             split: list.splits if_splits)
next
  case (StaleEnd i sp)
  with assms show ?thesis
    by (auto simp: statusStep_def utteranceCallback_def callback_statuses callback_lengths
             split: list.splits if_splits)
next
  case (StaleError i err)
  with assms show ?thesis
    by (auto simp: statusStep_def utteranceCallback_def callback_statuses callback_lengths
             split: list.splits if_splits)
qed (use assms in \<open>auto simp: statusStep_def dispatchEffect_queue mapVoices_queue
      voicesEffect_queue handlePauseResume_queue split: if_splits\<close>)

text \<open>
  Claim C2, amended. No event sets the status of a request back to pending: the clear
  button removes requests and leaves the others as they are; every other event keeps each
  request at its place with its id, a request that is pending afterwards was pending
  before, and the requests it adds are pending. Every event that is not a callback of an
  utterance leaves each status as it is, except that the stop button turns speaking into
  cancelled. A callback of an utterance gives one status other than pending to the
  requests that carry the utterance's id, whatever their status was, and leaves the others
  as they are.
\<close>

theorem status_moves:
  assumes "step ev s = Some s'"
  shows "(ev = ClearCompleted \<longrightarrow> subseq (queue s') (queue s))
       \<and> (ev \<noteq> ClearCompleted \<longrightarrow>
            length (queue s) \<le> length (queue s')
            \<and> (\<forall>i < length (queue s). statusStep ev (queue s ! i) (queue s' ! i))
            \<and> (\<forall>i < length (queue s'). length (queue s) \<le> i \<longrightarrow>
                  status (queue s' ! i) = Pending))
       \<and> (utteranceCallback ev \<longrightarrow>
            (\<exists>r st. st \<noteq> Pending
               \<and> (\<forall>i < length (queue s).
                     status (queue s' ! i) =
                       (if item_id (queue s ! i) = r then st else status (queue s ! i)))))"
  using status_moves_positions [OF assms] callback_overwrites [OF assms] by blast

theorem status_moves_witness:
  "step Stop speakingState = Some (handleStop speakingState)
   \<and> Stop \<noteq> ClearCompleted
   \<and> (0::nat) < length (queue speakingState)
   \<and> statusStep Stop (queue speakingState ! 0) (queue (handleStop speakingState) ! 0)
   \<and> statuses speakingState = [Speaking]
   \<and> statuses (handleStop speakingState) = [Cancelled]
   \<and> utteranceCallback (OnEnd False)
   \<and> map_option statuses (step (OnEnd False) speakingState) = Some [Completed]"
proof -
  have h: "step Stop speakingState = Some (handleStop speakingState)" by simp
  have e: "step (OnEnd False) speakingState = Some (the (step (OnEnd False) speakingState))"
    by (simp add: speakingState_def page_defs)
  have c: "map_option statuses (step (OnEnd False) speakingState) = Some [Completed]"
    by (simp add: speakingState_def page_defs)
  from status_moves [OF h] status_moves [OF e] h c show ?thesis
    by (simp add: speakingState_queue speakingState_speechRef statuses_def handleStop_def
          utteranceCallback_def)
qed

subsection \<open>Adding a request\<close>



lemma rangeInput_examples:
  "rangeInput 0.5 2 0.05 5 = 2" "rangeInput 0 2 0.05 (- 1) = 0" "rangeInput 0 1 0.05 1.5 = 1"
  by (simp_all add: rangeInput_def)


lemma legalProsody_status [simp]:
  "legalProsody (entry\<lparr>status := st\<rparr>) = legalProsody entry"
  "legalProsody (entry\<lparr>status := st, error := e\<rparr>) = legalProsody entry"
  by (simp_all add: legalProsody_def)


lemma prosodyLegal_queue:
  assumes "prosodyLegal s" and "rate s' = rate s" and "pitch s' = pitch s"
    and "volume s' = volume s" and "list_all legalProsody (queue s')"
  shows "prosodyLegal s'"
  using assms by (simp add: prosodyLegal_def)









text \<open>
  Claim C4. When the trimmed text is empty, \<open>handleAddToQueue\<close> returns the state it was
  given: the queue is unchanged, no request is created, the engine is not touched, and the
  handler returns normally.
\<close>

theorem enqueue_blank_is_noop:
  assumes "trim (text' s) = []"
  shows "handleAddToQueue randomId s = s"
  using assms by (simp add: handleAddToQueue_def)

theorem enqueue_blank_is_noop_witness:
  "trim (text' (initial\<lparr>text' := js ''   ''\<rparr>)) = []
   \<and> handleAddToQueue (js ''r1'') (initial\<lparr>text' := js ''   ''\<rparr>)
       = initial\<lparr>text' := js ''   ''\<rparr>
   \<and> length (queue (handleAddToQueue (js ''r1'') (initial\<lparr>text' := js ''   ''\<rparr>)))
       = length (queue initial)"
proof -
  have h: "trim (text' (initial\<lparr>text' := js ''   ''\<rparr>)) = []"
    by (simp add: js_def trim_def isWhiteSpace_def)
  show ?thesis
    using h enqueue_blank_is_noop [OF h, of "js ''r1''"] by simp
qed

subsection \<open>Clearing, stopping, pausing\<close>

text \<open>
  Claim C5. \<open>handleClearCompleted\<close> removes exactly the requests whose status is
  completed, cancelled or error; what is left is a subsequence of the queue, so the order
  of the survivors is kept; and the pending and speaking requests are the same before and
  after.
\<close>

theorem clearCompleted_keeps_active:
  "queue (handleClearCompleted s) =
     filter (\<lambda>item. status item \<notin> {Completed, Cancelled, Error}) (queue s)
   \<and> subseq (queue (handleClearCompleted s)) (queue s)
   \<and> filter (\<lambda>item. status item \<in> {Pending, Speaking}) (queue (handleClearCompleted s)) =
       filter (\<lambda>item. status item \<in> {Pending, Speaking}) (queue s)"
proof -
  have "(status item = Pending \<or> status item = Speaking)
          = (status item \<notin> {Completed, Cancelled, Error})"
    for item :: QueueItem
    by (cases "status item") auto
  then show ?thesis
    by (auto simp: handleClearCompleted_def intro: filter_cong)
qed

theorem clearCompleted_keeps_active_witness:
  "queue (handleClearCompleted
            (initial\<lparr>queue := [itemWith ''a'' Completed, itemWith ''b'' Speaking,
                                itemWith ''c'' Error, itemWith ''d'' Pending]\<rparr>))
     = [itemWith ''b'' Speaking, itemWith ''d'' Pending]"
  using clearCompleted_keeps_active
          [of "initial\<lparr>queue := [itemWith ''a'' Completed, itemWith ''b'' Speaking,
                                  itemWith ''c'' Error, itemWith ''d'' Pending]\<rparr>"]
  by (simp add: itemWith_def)

text \<open>
  Claim C6. A second \<open>handleStop\<close> right after the first leaves the queue and the paused
  flag as the first left them, also when the dispatch effect ran in between; on an empty
  queue \<open>handleStop\<close> leaves the queue empty.
\<close>

theorem stop_is_idempotent:
  "queue (handleStop (handleStop s)) = queue (handleStop s)
   \<and> isPaused (handleStop (handleStop s)) = isPaused (handleStop s)
   \<and> queue (handleStop (dispatchEffect (handleStop s))) = queue (handleStop s)
   \<and> isPaused (handleStop (dispatchEffect (handleStop s))) = isPaused (handleStop s)
   \<and> (queue s = [] \<longrightarrow> queue (handleStop s) = [])"
  by (auto simp: handleStop_def dispatchEffect_def speak_def Let_def split: option.splits)

theorem stop_is_idempotent_witness:
  "queue ready = [] \<and> queue (handleStop ready) = []
   \<and> statuses (handleStop speakingState) = [Cancelled]
   \<and> statuses (handleStop (handleStop speakingState)) = [Cancelled]
   \<and> isPaused (handleStop (handleStop speakingState)) = False"
proof -
  have e: "queue ready = []" by (simp add: ready_def page_defs)
  from stop_is_idempotent [of ready] stop_is_idempotent [of speakingState] e
  show ?thesis
    by (simp add: statuses_def speakingState_queue speakingState_speechRef handleStop_def)
qed

text \<open>
  Claim C8, as stated, fails: the status does not follow the flag the engine shows when
  the callback runs. With the engine speaking at the callback and silent when React runs
  the updater the request becomes completed; with the engine silent at the callback and
  speaking at the update it becomes cancelled.
\<close>

theorem onend_at_callback_time_counterexample:
  "speechRef speakingState
   \<and> statuses (onendObserved (js ''a'') True False speakingState) = [Completed]
   \<and> statuses (onendObserved (js ''a'') False True speakingState) = [Cancelled]"
  by (simp add: speakingState_speechRef statuses_def speakingState_queue onendObserved_def
        onendUpdate_def onendCallback_def)

text \<open>
  Claim C8, amended. The end callback of the utterance dispatched for the request with id
  \<open>itemId\<close> sets that request's status to cancelled if the engine reports that it is
  speaking when React runs the queue updater the callback handed over, and to completed
  otherwise, whatever the engine reported while the callback ran; it leaves the other
  requests as they are and sets the paused flag to false.
\<close>

theorem onend_classifies:
  assumes "speechRef s"
  shows "queue (onendObserved itemId speakingAtCallback speakingAtUpdate s) =
           map (\<lambda>entry. if item_id entry = itemId
                         then entry\<lparr>status := (if speakingAtUpdate then Cancelled else Completed)\<rparr>
                         else entry) (queue s)
         \<and> isPaused (onendObserved itemId speakingAtCallback speakingAtUpdate s) = False
         \<and> onendObserved itemId speakingAtCallback speakingAtUpdate s
             = onend itemId speakingAtUpdate s"
  using assms
  by (simp add: onendObserved_def onend_def onendUpdate_def onendCallback_def split: list.splits)

theorem onend_classifies_witness:
  "speechRef speakingState
   \<and> statuses (onendObserved (js ''a'') True True speakingState) = [Cancelled]
   \<and> statuses (onendObserved (js ''a'') False False speakingState) = [Completed]
   \<and> statuses (onendObserved (js ''a'') True False speakingState) = [Completed]
   \<and> isPaused (onendObserved (js ''a'') True False speakingState) = False"
proof -
  note c = onend_classifies [OF speakingState_speechRef, where itemId = "js ''a''"]
  have "statuses (onendObserved (js ''a'') True True speakingState) = [Cancelled]"
    using c [where speakingAtCallback = True and speakingAtUpdate = True, THEN conjunct1]
    by (simp add: statuses_def speakingState_queue)
  moreover have "statuses (onendObserved (js ''a'') False False speakingState) = [Completed]"
    using c [where speakingAtCallback = False and speakingAtUpdate = False, THEN conjunct1]
    by (simp add: statuses_def speakingState_queue)
  moreover have "statuses (onendObserved (js ''a'') True False speakingState) = [Completed]"
    using c [where speakingAtCallback = True and speakingAtUpdate = False, THEN conjunct1]
    by (simp add: statuses_def speakingState_queue)
  moreover have "isPaused (onendObserved (js ''a'') True False speakingState) = False"
    using c [where speakingAtCallback = True and speakingAtUpdate = False] by blast
  ultimately show ?thesis using speakingState_speechRef by blast
qed

text \<open>
  Claim C9. With the engine at hand, \<open>handlePauseResume\<close> calls the engine's \<open>pause\<close>
  and sets the paused flag when the engine reports speaking and not paused; it calls
  \<open>resume\<close> and clears the flag when the engine reports paused; in every other engine
  state it changes nothing.
\<close>

theorem pauseResume_toggles:
  assumes "speechRef s"
  shows "(engineSpeaking \<and> \<not> enginePaused \<longrightarrow>
            calls (engine (handlePauseResume engineSpeaking enginePaused s))
              = calls (engine s) @ [Pause]
            \<and> isPaused (handlePauseResume engineSpeaking enginePaused s) = True)
       \<and> (enginePaused \<longrightarrow>
            calls (engine (handlePauseResume engineSpeaking enginePaused s))
              = calls (engine s) @ [Resume]
            \<and> isPaused (handlePauseResume engineSpeaking enginePaused s) = False)
       \<and> (\<not> engineSpeaking \<and> \<not> enginePaused \<longrightarrow>
            handlePauseResume engineSpeaking enginePaused s = s)"
  using assms by (simp add: handlePauseResume_def engine_pause_def engine_resume_def)

theorem pauseResume_toggles_witness:
  "speechRef ready
   \<and> calls (engine (handlePauseResume True False ready)) = [Pause]
   \<and> isPaused (handlePauseResume True False ready)
   \<and> speechRef (handlePauseResume True False ready)
   \<and> calls (engine (handlePauseResume True True (handlePauseResume True False ready)))
       = [Pause, Resume]
   \<and> \<not> isPaused (handlePauseResume True True (handlePauseResume True False ready))
   \<and> handlePauseResume False False ready = ready"
proof -
  have r: "speechRef ready" by (simp add: ready_def page_defs)
  have c: "calls (engine ready) = []" by (simp add: ready_def page_defs)
  have r': "speechRef (handlePauseResume True False ready)"
    using r by (simp add: handlePauseResume_def)
  from pauseResume_toggles [OF r, of True False]
    pauseResume_toggles [OF r', of True True]
    pauseResume_toggles [OF r, of False False] r r' c
  show ?thesis by simp
qed

text \<open>
  Claim C10. \<open>handlePauseResume\<close> returns the queue it was given, whatever the engine
  reports; of the whole page state only the paused flag and the engine can differ
  afterwards.
\<close>

theorem pauseResume_keeps_queue:
  "queue (handlePauseResume engineSpeaking enginePaused s) = queue s
   \<and> handlePauseResume engineSpeaking enginePaused s =
       s\<lparr>isPaused := isPaused (handlePauseResume engineSpeaking enginePaused s),
         engine := engine (handlePauseResume engineSpeaking enginePaused s)\<rparr>"
  by (simp add: handlePauseResume_def)

subsection \<open>Dispatch order\<close>

lemma spoken_append: "spoken (cs @ ds) = spoken cs @ spoken ds"
  by (induction cs rule: spoken.induct) auto

lemma indexOf_less: "x \<in> set ids \<Longrightarrow> indexOf ids x < length ids"
  by (induction ids) auto

lemma indexOf_append: "x \<in> set ids \<Longrightarrow> indexOf (ids @ extra) x = indexOf ids x"
  by (induction ids) auto

lemma indexOf_fresh: "x \<notin> set ids \<Longrightarrow> indexOf (ids @ [x]) x = length ids"
  by (induction ids) auto

lemma map_indexOf_append:
  "set xs \<subseteq> set ids \<Longrightarrow> map (indexOf (ids @ extra)) xs = map (indexOf ids) xs"
  by (induction xs) (auto simp: indexOf_append)

lemma inOrder_more: "inOrder ids s \<Longrightarrow> inOrder (ids @ extra) s"
  by (auto simp: inOrder_def map_indexOf_append simp flip: map_append)

lemma find_pending_filter:
  "find P xs = Some x \<Longrightarrow> \<exists>rest. filter P xs = x # rest"
  by (induction xs) (auto split: if_splits)

lemma pending_after_callback:
  assumes "\<And>entry. status (f entry) \<noteq> Pending \<and> item_id (f entry) = item_id entry"
  shows "map item_id (filter (\<lambda>item. status item = Pending)
           (map (\<lambda>entry. if item_id entry = r then f entry else entry) q))
         = filter (\<lambda>i. i \<noteq> r) (map item_id (filter (\<lambda>item. status item = Pending) q))"
  using assms by (induction q) auto

lemma pendingIds_onstart: "pendingIds (onstart r s) = filter (\<lambda>i. i \<noteq> r) (pendingIds s)"
  unfolding pendingIds_def onstart_def
  using pending_after_callback [of "\<lambda>entry. entry\<lparr>status := Speaking\<rparr>" r "queue s"]
  by simp

lemma pendingIds_onend: "pendingIds (onend r sp s) = filter (\<lambda>i. i \<noteq> r) (pendingIds s)"
  using pending_after_callback [of "\<lambda>entry. entry\<lparr>status := Cancelled\<rparr>" r "queue s"]
    pending_after_callback [of "\<lambda>entry. entry\<lparr>status := Completed\<rparr>" r "queue s"]
  by (simp add: pendingIds_def onend_def onendCallback_def onendUpdate_def)

lemma pendingIds_onerror: "pendingIds (onerror r err s) = filter (\<lambda>i. i \<noteq> r) (pendingIds s)"
  unfolding pendingIds_def onerror_def
  using pending_after_callback
          [of "\<lambda>entry. entry\<lparr>status := Error,
                               error := Some (case err of Some e \<Rightarrow> e | None \<Rightarrow> js ''Unknown error'')\<rparr>"
              r "queue s"]
  by simp

lemma pendingIds_engine: "pendingIds (s\<lparr>engine := e\<rparr>) = pendingIds s"
  by (simp add: pendingIds_def)

lemma calls_callbacks:
  "calls (engine (onstart r s)) = calls (engine s)"
  "calls (engine (onend r sp s)) = calls (engine s)"
  "calls (engine (onerror r err s)) = calls (engine s)"
  by (simp_all add: onstart_def onend_def onendCallback_def onendUpdate_def onerror_def)

lemma inOrder_filter:
  assumes "inOrder ids s" and c: "calls (engine s') = calls (engine s)"
    and "pendingIds s' = filter P (pendingIds s)"
  shows "inOrder ids s'"
proof -
  from c have "dispatched s' = dispatched s" by (simp add: dispatched_def)
  note assms = assms(1) this assms(3)
  from assms(1) have sub: "set (dispatched s) \<subseteq> set ids" "set (pendingIds s) \<subseteq> set ids"
    and srt: "sorted (map (indexOf ids) (dispatched s) @ map (indexOf ids) (pendingIds s))"
    by (auto simp: inOrder_def)
  from srt have "sorted (map (indexOf ids) (dispatched s) @ map (indexOf ids) (filter P (pendingIds s)))"
    by (auto simp: sorted_append intro: sorted_filter)
  with sub assms(2,3) show ?thesis
    by (auto simp: inOrder_def)
qed

lemma inOrder_same:
  "inOrder ids s \<Longrightarrow> dispatched s' = dispatched s \<Longrightarrow> pendingIds s' = pendingIds s \<Longrightarrow> inOrder ids s'"
  by (simp add: inOrder_def)

lemma inOrder_onstart:
  "inOrder ids s \<Longrightarrow> inOrder ids ((onstart r s)\<lparr>engine := (engine s)\<lparr>started := b\<rparr>\<rparr>)"
  by (erule inOrder_filter [where P = "\<lambda>i. i \<noteq> r"])
     (simp_all add: pendingIds_engine pendingIds_onstart)

lemma inOrder_onend:
  "inOrder ids s \<Longrightarrow> calls e = calls (engine s) \<Longrightarrow> inOrder ids ((onend r sp s)\<lparr>engine := e\<rparr>)"
  by (erule inOrder_filter [where P = "\<lambda>i. i \<noteq> r"])
     (simp_all add: pendingIds_engine pendingIds_onend)

lemma inOrder_onerror:
  "inOrder ids s \<Longrightarrow> calls e = calls (engine s) \<Longrightarrow> inOrder ids ((onerror r err s)\<lparr>engine := e\<rparr>)"
  by (erule inOrder_filter [where P = "\<lambda>i. i \<noteq> r"])
     (simp_all add: pendingIds_engine pendingIds_onerror)

lemma inOrder_dispatchEffect:
  assumes "inOrder ids s"
  shows "inOrder ids (dispatchEffect s)"
proof (cases "dispatchEffect s = s")
  case True
  with assms show ?thesis by simp
next
  case False
  then obtain nxt where f: "find (\<lambda>item. status item = Pending) (queue s) = Some nxt"
    and d: "dispatchEffect s = speak nxt s" and ok: "speechRef s" "supportsSpeech s"
    by (auto simp: dispatchEffect_def split: if_splits option.splits)
  from find_pending_filter [OF f]
  obtain rest where "filter (\<lambda>item. status item = Pending) (queue s) = nxt # rest"
    by auto
  then have p: "pendingIds s = item_id nxt # map item_id rest"
    by (simp add: pendingIds_def)
  have d': "dispatched (dispatchEffect s) = dispatched s @ [item_id nxt]"
    using ok by (simp add: d speak_def Let_def dispatched_def engine_speak_def engine_cancel_def
        spoken_append utteranceOf_def)
  have p': "pendingIds (dispatchEffect s) = pendingIds s"
    using ok by (simp add: d speak_def Let_def pendingIds_def)
  from assms show ?thesis
    unfolding inOrder_def d' p' p by (auto simp: sorted_append)
qed

lemma pendingIds_handleStop: "pendingIds (handleStop s) = pendingIds s"
proof -
  have "filter (\<lambda>item. status item = Pending)
          (map (\<lambda>entry. if status entry = Speaking then entry\<lparr>status := Cancelled\<rparr> else entry) q)
        = filter (\<lambda>item. status item = Pending) q" for q :: "QueueItem list"
    by (induction q) auto
  then show ?thesis by (simp add: pendingIds_def handleStop_def)
qed

lemma pendingIds_handleClearCompleted: "pendingIds (handleClearCompleted s) = pendingIds s"
proof -
  have "filter (\<lambda>item. status item = Pending)
          (filter (\<lambda>item. status item = Pending \<or> status item = Speaking) q)
        = filter (\<lambda>item. status item = Pending) q" for q :: "QueueItem list"
    by (induction q) auto
  then show ?thesis by (simp add: pendingIds_def handleClearCompleted_def)
qed

lemma inOrder_handleAddToQueue:
  assumes "inOrder ids s" and "r \<notin> set ids"
  shows "inOrder (ids @ [r]) (handleAddToQueue r s)"
proof (cases "trim (text' s) = []")
  case True
  with assms(1) show ?thesis by (simp add: handleAddToQueue_def inOrder_more)
next
  case False
  then have p: "pendingIds (handleAddToQueue r s) = pendingIds s @ [r]"
    and d: "dispatched (handleAddToQueue r s) = dispatched s"
    by (simp_all add: handleAddToQueue_def Let_def pendingIds_def dispatched_def)
  define known where "known = dispatched s @ pendingIds s"
  from assms(1) have sub: "set known \<subseteq> set ids"
    and srt: "sorted (map (indexOf ids) known)"
    by (auto simp: inOrder_def known_def)
  have m: "map (indexOf (ids @ [r])) known = map (indexOf ids) known"
    using sub by (rule map_indexOf_append)
  have "x \<le> length ids" if "x \<in> set (map (indexOf ids) known)" for x
  proof -
    from that obtain y where "y \<in> set known" and x: "x = indexOf ids y"
      by auto
    with sub have "y \<in> set ids" by blast
    then show ?thesis using indexOf_less [of y ids] x by simp
  qed
  then have "\<forall>x \<in> set (map (indexOf ids) known). x \<le> length ids"
    by blast
  with srt have "sorted (map (indexOf ids) known @ [length ids])"
    by (simp add: sorted_append)
  moreover have "map (indexOf (ids @ [r])) (known @ [r]) = map (indexOf ids) known @ [length ids]"
    by (simp only: map_append m list.map indexOf_fresh [OF assms(2)])
  ultimately have "sorted (map (indexOf (ids @ [r])) (known @ [r]))"
    by (simp only:)
  moreover have "dispatched (handleAddToQueue r s) @ pendingIds (handleAddToQueue r s) = known @ [r]"
    by (simp add: p d known_def)
  ultimately show ?thesis
    using sub unfolding inOrder_def by auto
qed

lemma inOrder_step:
  assumes "inOrder ids s" and "step ev s = Some s'" and "distinct (ids @ randomIds [ev])"
  shows "inOrder (ids @ randomIds [ev]) s'"
proof (cases ev)
  case (AddToQueue r)
  with assms show ?thesis by (auto simp: inOrder_handleAddToQueue)
next
  case DispatchEffect
  with assms show ?thesis by (auto simp: inOrder_dispatchEffect)
next
  case Stop
  with assms show ?thesis
    by (auto intro!: inOrder_same [of ids s] simp: pendingIds_handleStop)
       (auto simp: dispatched_def handleStop_def engine_cancel_def spoken_append)
next
  case ClearCompleted
  with assms show ?thesis
    by (auto intro!: inOrder_same [of ids s] simp: pendingIds_handleClearCompleted)
       (auto simp: dispatched_def handleClearCompleted_def)
next
  case (PauseResume sp pa)
  with assms show ?thesis
    by (auto intro!: inOrder_same [of ids s])
       (auto simp: dispatched_def pendingIds_def handlePauseResume_def engine_pause_def
          engine_resume_def spoken_append)
next
  case OnStart
  with assms show ?thesis
    by (auto split: list.splits if_splits intro: inOrder_onstart)
next
  case (OnEnd sp)
  with assms show ?thesis
    by (auto split: list.splits if_splits intro: inOrder_onend)
next
  case (OnError err)
  with assms show ?thesis
    by (auto split: list.splits if_splits intro: inOrder_onerror)
next
  case (StaleEnd i sp)
  with assms show ?thesis
    by (auto split: list.splits if_splits intro: inOrder_onend)
next
  case (StaleError i err)
  with assms show ?thesis
    by (auto split: list.splits if_splits intro: inOrder_onerror)
qed (use assms in \<open>auto intro!: inOrder_same [of ids s]
      simp: pendingIds_def dispatched_def voicesEffect_def mapVoices_def Let_def split: if_splits\<close>)

lemma randomIds_Cons: "randomIds (ev # evs) = randomIds [ev] @ randomIds evs"
  by (cases ev) auto

lemma inOrder_run:
  "inOrder ids s \<Longrightarrow> run evs s = Some s' \<Longrightarrow> distinct (ids @ randomIds evs) \<Longrightarrow>
     inOrder (ids @ randomIds evs) s'"
proof (induction evs arbitrary: ids s)
  case Nil
  then show ?case by simp
next
  case (Cons ev evs)
  from Cons.prems(2) obtain s1 where s1: "step ev s = Some s1" and r: "run evs s1 = Some s'"
    by (auto split: option.splits)
  have eq: "ids @ randomIds (ev # evs) = (ids @ randomIds [ev]) @ randomIds evs"
    using randomIds_Cons [of ev evs] by simp
  from Cons.prems(3) have d1: "distinct (ids @ randomIds [ev])"
    unfolding eq by auto
  have "inOrder (ids @ randomIds [ev]) s1"
    using Cons.prems(1) s1 d1 by (rule inOrder_step)
  then have "inOrder ((ids @ randomIds [ev]) @ randomIds evs) s'"
    using r Cons.prems(3) unfolding eq by (rule Cons.IH)
  then show ?case unfolding eq .
qed

lemma inOrder_initial: "inOrder [] initial"
  by (simp add: inOrder_def initial_def dispatched_def pendingIds_def)

lemma find_first_pending:
  assumes "\<forall>item \<in> set before. status item \<noteq> Pending" and "status nxt = Pending"
  shows "find (\<lambda>item. status item = Pending) (before @ nxt # after) = Some nxt"
  using assms by (induction before) auto

text \<open>
  Claim C7. With the engine at hand, a run of the dispatch effect in a state with no
  speaking request and the paused flag off hands the earliest pending request of the queue
  to the engine, after a \<open>cancel\<close>, and nothing else; in a state with a speaking request,
  or paused, or without a pending request, it does nothing. Hence in every run from the
  initial state in which the ids drawn are pairwise distinct, the requests handed to the
  engine follow the order in which they were enqueued.
\<close>

theorem dispatch_is_fifo:
  "(speechRef s \<and> supportsSpeech s
      \<and> (\<forall>item \<in> set (queue s). status item \<noteq> Speaking) \<and> \<not> isPaused s
      \<and> queue s = before @ nxt # after
      \<and> (\<forall>item \<in> set before. status item \<noteq> Pending) \<and> status nxt = Pending
    \<longrightarrow> calls (engine (dispatchEffect s)) = calls (engine s) @ [Cancel, Speak (utteranceOf s nxt)]
        \<and> uitem (utteranceOf s nxt) = item_id nxt
        \<and> queue (dispatchEffect s) = queue s)
   \<and> ((\<exists>item \<in> set (queue s). status item = Speaking) \<or> isPaused s
        \<or> (\<forall>item \<in> set (queue s). status item \<noteq> Pending)
      \<longrightarrow> dispatchEffect s = s)
   \<and> (run evs initial = Some s' \<and> distinct (randomIds evs)
      \<longrightarrow> set (dispatched s') \<subseteq> set (randomIds evs)
          \<and> sorted (map (indexOf (randomIds evs)) (dispatched s')))"
proof (intro conjI impI)
  assume a: "speechRef s \<and> supportsSpeech s
      \<and> (\<forall>item \<in> set (queue s). status item \<noteq> Speaking) \<and> \<not> isPaused s
      \<and> queue s = before @ nxt # after
      \<and> (\<forall>item \<in> set before. status item \<noteq> Pending) \<and> status nxt = Pending"
  then have f: "find (\<lambda>item. status item = Pending) (queue s) = Some nxt"
    using find_first_pending [of before nxt after] by simp
  from a have "\<forall>item \<in> set (queue s). status item \<noteq> Speaking" by blast
  then have n: "find (\<lambda>item. status item = Speaking) (queue s) = None"
    unfolding find_None_iff by blast
  from a f n show "calls (engine (dispatchEffect s))
      = calls (engine s) @ [Cancel, Speak (utteranceOf s nxt)]"
    by (simp add: dispatchEffect_def speak_def Let_def engine_speak_def engine_cancel_def)
  show "uitem (utteranceOf s nxt) = item_id nxt"
    by (simp add: utteranceOf_def)
  show "queue (dispatchEffect s) = queue s"
    by (rule dispatchEffect_queue)
next
  assume "(\<exists>item \<in> set (queue s). status item = Speaking) \<or> isPaused s
        \<or> (\<forall>item \<in> set (queue s). status item \<noteq> Pending)"
  then consider (sp) item where "item \<in> set (queue s)" "status item = Speaking"
    | (pa) "isPaused s"
    | (np) "\<forall>item \<in> set (queue s). status item \<noteq> Pending"
    by blast
  then show "dispatchEffect s = s"
  proof cases
    case sp
    then have "find (\<lambda>item. status item = Speaking) (queue s) \<noteq> None"
      unfolding find_None_iff by blast
    then show ?thesis
      by (auto simp: dispatchEffect_def)
  next
    case pa
    then show ?thesis
      by (simp add: dispatchEffect_def split: option.splits)
  next
    case np
    then have "find (\<lambda>item. status item = Pending) (queue s) = None"
      unfolding find_None_iff by blast
    then show ?thesis
      by (simp add: dispatchEffect_def split: option.splits)
  qed
next
  assume r: "run evs initial = Some s' \<and> distinct (randomIds evs)"
  then have "inOrder ([] @ randomIds evs) s'"
    using inOrder_run [OF inOrder_initial, of evs s'] by simp
  then show "set (dispatched s') \<subseteq> set (randomIds evs)"
    and "sorted (map (indexOf (randomIds evs)) (dispatched s'))"
    by (auto simp: inOrder_def sorted_append)
qed



theorem dispatch_is_fifo_witness:
  "map_option dispatched (run abcRun initial) = Some [js ''a'', js ''b'', js ''c'']
   \<and> distinct (randomIds abcRun)
   \<and> sorted (map (indexOf (randomIds abcRun)) (dispatched (the (run abcRun initial))))
   \<and> map (indexOf (randomIds abcRun)) (dispatched (the (run abcRun initial))) = [0, 1, 2]
   \<and> spoken (calls (engine (dispatchEffect (handleAddToQueue (js ''a'') ready)))) = [js ''a'']
   \<and> dispatchEffect speakingState = speakingState"
proof -
  have r: "run abcRun initial = Some (the (run abcRun initial))"
    by (simp add: abcRun_def page_defs)
  have d: "distinct (randomIds abcRun)"
    by (simp add: abcRun_def js_def)
  have v: "map_option dispatched (run abcRun initial) = Some [js ''a'', js ''b'', js ''c'']"
    by (simp add: abcRun_def page_defs dispatched_def)
  have q: "queue (handleAddToQueue (js ''a'') ready)
             = [] @ hd (queue (handleAddToQueue (js ''a'') ready)) # []"
    by (simp add: ready_def page_defs)
  have p: "speechRef (handleAddToQueue (js ''a'') ready)
           \<and> supportsSpeech (handleAddToQueue (js ''a'') ready)
           \<and> (\<forall>item \<in> set (queue (handleAddToQueue (js ''a'') ready)). status item \<noteq> Speaking)
           \<and> \<not> isPaused (handleAddToQueue (js ''a'') ready)
           \<and> (\<forall>item \<in> set []. status item \<noteq> Pending)
           \<and> status (hd (queue (handleAddToQueue (js ''a'') ready))) = Pending
           \<and> calls (engine (handleAddToQueue (js ''a'') ready)) = []
           \<and> item_id (hd (queue (handleAddToQueue (js ''a'') ready))) = js ''a''"
    by (simp add: ready_def page_defs)
  have k: "\<exists>item \<in> set (queue speakingState). status item = Speaking"
    by (simp add: speakingState_queue)
  from dispatch_is_fifo
         [of "handleAddToQueue (js ''a'') ready" "[]"
             "hd (queue (handleAddToQueue (js ''a'') ready))" "[]" abcRun
             "the (run abcRun initial)"]
       q p r d
  have one: "sorted (map (indexOf (randomIds abcRun)) (dispatched (the (run abcRun initial))))"
    and two: "spoken (calls (engine (dispatchEffect (handleAddToQueue (js ''a'') ready)))) = [js ''a'']"
    by simp_all
  from dispatch_is_fifo [of speakingState] k
  have three: "dispatchEffect speakingState = speakingState"
    by blast
  from v have "dispatched (the (run abcRun initial)) = [js ''a'', js ''b'', js ''c'']"
    by (cases "run abcRun initial") auto
  then have four: "map (indexOf (randomIds abcRun)) (dispatched (the (run abcRun initial))) = [0, 1, 2]"
    by (simp add: abcRun_def js_def)
  from v d one two three four show ?thesis by blast
qed

end
